theory Spec2Isabelle
  imports Main "HOL-Library.Multiset"
begin

section \<open>The dungeon walker of bpmn-js: lib/features/dungeon/Dungeon.js\<close>

text \<open>
  The module toggles the \<open>display\<close> attribute of the graphical nodes of a BPMN diagram.
  It reads the diagram through three collaborators that are injected into its constructor:
  the element registry, the zoom/scroll service and the event bus. The registry and the
  camera are modelled as explicit state; every function of the module takes the state and
  returns the new one. A JavaScript \<open>TypeError\<close> (reading a property of \<open>undefined\<close>) is a
  value of type \<open>error\<close>, so a function that can raise returns \<open>error + state\<close>.
\<close>

subsection \<open>Data model\<close>

type_synonym ident = string

datatype error = TypeError

text \<open>
  The end of a connection, as far as the module reads it: \<open>connection.source.id\<close>,
  \<open>connection.target.id\<close> and the business object of the target (for \<open>is(target, T)\<close>).
  A business object is represented by the names of the metamodel types it is an instance
  of (its own type and all its supertypes).
\<close>

record shape_ref =
  ref_id :: ident
  ref_bo :: "string list"

record connection =
  conn_id :: ident
  source :: shape_ref
  target :: shape_ref

text \<open>
  A diagram element. \<open>el_type\<close> is \<open>element.type\<close> (for a label the string \<open>label\<close>),
  \<open>parent\<close> is \<open>element.parent.type\<close> and is \<open>None\<close> when \<open>element.parent\<close> is undefined
  (the root), \<open>incoming\<close> and \<open>outgoing\<close> are \<open>None\<close> when the property is undefined.
  Coordinates and sizes are taken as exact integers.
\<close>

record element =
  el_id :: ident
  el_type :: string
  businessObject :: "string list"
  parent :: "string option"
  incoming :: "connection list option"
  outgoing :: "connection list option"
  el_x :: int
  el_y :: int
  width :: int
  height :: int

text \<open>
  The graphical node of an element: its \<open>display\<close> attribute (\<open>None\<close> while it was never
  set) and its child nodes in document order.
\<close>

datatype node = VisualNode | ImageNode string int int int int

record graphics =
  display :: "string option"
  children :: "node list"

record entry =
  element :: element
  gfx :: graphics

text \<open>
  What the module writes to the console, and the calls it makes on the zoom/scroll
  service, both in order. \<open>NotFound k\<close> stands for the line
  \<open>element with id k not found!\<close>, \<open>ScrollLine k dx dy\<close> for
  \<open>scrollTo k position: dx|dy\<close>.
\<close>

datatype log = NotFound ident | ScrollLine ident int int

datatype camera = Reset | Scroll int int

record state =
  elements :: "entry list"
  console :: "log list"
  zoomScroll :: "camera list"

subsection \<open>The classifier and the element registry\<close>

text \<open>
  Modelled from the spec: \<open>is\<close> of lib/util/ModelUtil, which is not among the sources.
  The spec's contract is \<open>isType(element, typeName) -> bool\<close>: it matches the element's
  business object against a type name, supertypes of the metamodel included, and has no
  side effect.
\<close>

definition isType :: "string list \<Rightarrow> string \<Rightarrow> bool" where
  "isType bo t \<longleftrightarrow> t \<in> set bo"

text \<open>
  Modelled from the spec: the element registry of the diagram engine (id to element
  lookup, graphics lookup, filtered query), an external collaborator. It keeps one entry
  per registered element under the element's id. \<open>getGraphics\<close> takes an element or its
  id, \<open>get\<close> takes an id; both answer \<open>undefined\<close> (here \<open>None\<close>) for an id that is not
  registered. \<open>filter\<close> runs a callback over the registered elements in order and keeps
  those for which it answers a truthy value; an exception of the callback propagates.
\<close>

datatype filter = ById ident | ByElement element

fun filter_id :: "filter \<Rightarrow> ident" where
  "filter_id (ById k) = k"
| "filter_id (ByElement e) = el_id e"

definition lookup :: "state \<Rightarrow> ident \<Rightarrow> entry option" where
  "lookup s k = find (\<lambda>en. el_id (element en) = k) (elements s)"

definition getGraphics :: "state \<Rightarrow> filter \<Rightarrow> graphics option" where
  "getGraphics s f = map_option gfx (lookup s (filter_id f))"

definition get :: "state \<Rightarrow> ident \<Rightarrow> element option" where
  "get s k = map_option element (lookup s k)"

fun filter_elements :: "(element \<Rightarrow> error + bool) \<Rightarrow> element list \<Rightarrow> error + element list" where
  "filter_elements fn [] = Inr []"
| "filter_elements fn (e # es) =
     (case fn e of
        Inl err \<Rightarrow> Inl err
      | Inr b \<Rightarrow>
         (case filter_elements fn es of
            Inl err \<Rightarrow> Inl err
          | Inr r \<Rightarrow> Inr (if b then e # r else r)))"

definition registryElements :: "state \<Rightarrow> element list" where
  "registryElements s = map element (elements s)"

definition registry_filter :: "(element \<Rightarrow> error + bool) \<Rightarrow> state \<Rightarrow> error + element list" where
  "registry_filter fn s = filter_elements fn (registryElements s)"

text \<open>
  \<open>gfx.attr('display', v)\<close> on the graphical node registered under \<open>k\<close>.
\<close>

definition attr_display :: "string \<Rightarrow> ident \<Rightarrow> state \<Rightarrow> state" where
  "attr_display v k s =
     s\<lparr>elements :=
         map (\<lambda>en. if el_id (element en) = k
                    then en\<lparr>gfx := (gfx en)\<lparr>display := Some v\<rparr>\<rparr>
                    else en)
             (elements s)\<rparr>"

text \<open>
  lodash's \<open>forEach\<close> over an array, for a callback that may raise: the first exception
  ends the loop and propagates. A callback that cannot raise is run with \<open>fold\<close>.
\<close>

fun forEach :: "'a list \<Rightarrow> ('a \<Rightarrow> state \<Rightarrow> error + state) \<Rightarrow> state \<Rightarrow> error + state" where
  "forEach [] f s = Inr s"
| "forEach (x # xs) f s =
     (case f x s of Inl err \<Rightarrow> Inl err | Inr s' \<Rightarrow> forEach xs f s')"

text \<open>\<open>Array.prototype.indexOf\<close>: the first index of the value, \<open>-1\<close> when it is absent.\<close>

fun indexOf_from :: "int \<Rightarrow> 'a list \<Rightarrow> 'a \<Rightarrow> int" where
  "indexOf_from i [] v = -1"
| "indexOf_from i (x # xs) v = (if x = v then i else indexOf_from (i + 1) xs v)"

definition indexOf :: "'a list \<Rightarrow> 'a \<Rightarrow> int" where
  "indexOf xs v = indexOf_from 0 xs v"

subsection \<open>The functions of the module\<close>

text \<open>
  \<open>show(elementId)\<close> (exported as \<open>showElement\<close>): guarded, it does nothing when the
  registry has no graphics for the id.
\<close>

definition showElement :: "ident \<Rightarrow> state \<Rightarrow> state" where
  "showElement elementId s =
     (case getGraphics s (ById elementId) of
        Some g \<Rightarrow> attr_display ''inline'' elementId s
      | None \<Rightarrow> s)"

text \<open>
  \<open>hide(elementId)\<close>: not guarded, \<open>gfx.attr\<close> on \<open>undefined\<close> raises a TypeError.
  \<open>hideAll\<close> calls it with the element itself, which \<open>getGraphics\<close> accepts.
\<close>

definition hide :: "filter \<Rightarrow> state \<Rightarrow> error + state" where
  "hide elementId s =
     (case getGraphics s elementId of
        None \<Rightarrow> Inl TypeError
      | Some g \<Rightarrow> Inr (attr_display ''none'' (filter_id elementId) s))"

definition hideAll :: "state \<Rightarrow> error + state" where
  "hideAll s =
     (case registry_filter (\<lambda>e. Inr (\<not> isType (businessObject e) ''bpmn:Process'')) s of
        Inl err \<Rightarrow> Inl err
      | Inr allElements \<Rightarrow> forEach allElements (\<lambda>e. hide (ByElement e)) s)"

text \<open>
  The callback of \<open>start\<close>: \<open>is(element, 'bpmn:StartEvent') && element.parent.type ===
  'bpmn:Process'\<close>. The right operand is evaluated only for a start event, and raises when
  the element has no parent.
\<close>

definition startCallback :: "element \<Rightarrow> error + bool" where
  "startCallback e =
     (if isType (businessObject e) ''bpmn:StartEvent''
      then (case parent e of
              None \<Rightarrow> Inl TypeError
            | Some t \<Rightarrow> Inr (t = ''bpmn:Process''))
      else Inr False)"

definition start :: "state \<Rightarrow> error + state" where
  "start s =
     (case hideAll s of
        Inl err \<Rightarrow> Inl err
      | Inr s1 \<Rightarrow>
         (case registry_filter startCallback s1 of
            Inl err \<Rightarrow> Inl err
          | Inr es \<Rightarrow> Inr (fold (\<lambda>e. showElement (el_id e)) es s1)))"

text \<open>
  The loop of \<open>showElements\<close>. The guard \<open>element.incoming && element.incoming !== []\<close>
  compares with a fresh array, which is never identical to \<open>element.incoming\<close>: it
  only tests that the property is defined. \<open>return\<close> in the callback ends one round,
  not the loop.
\<close>

definition showIncoming :: "ident list \<Rightarrow> connection \<Rightarrow> state \<Rightarrow> state" where
  "showIncoming elementIds c s =
     (if indexOf elementIds (ref_id (source c)) \<noteq> -1
      then showElement (conn_id c) s
      else s)"

definition showElementsStep :: "ident list \<Rightarrow> ident \<Rightarrow> state \<Rightarrow> state" where
  "showElementsStep elementIds k s =
     (let s1 = showElement k s in
      case get s1 k of
        None \<Rightarrow> s1\<lparr>console := console s1 @ [NotFound k]\<rparr>
      | Some e \<Rightarrow>
         (case incoming e of
            None \<Rightarrow> s1
          | Some connections \<Rightarrow> fold (showIncoming elementIds) connections s1))"

definition showElements :: "ident list \<Rightarrow> state \<Rightarrow> state" where
  "showElements elementIds s = fold (showElementsStep elementIds) elementIds s"

definition showOutgoing :: "connection \<Rightarrow> state \<Rightarrow> state" where
  "showOutgoing c s =
     (if isType (ref_bo (target c)) ''bpmn:Gateway'' \<or> isType (ref_bo (target c)) ''bpmn:EndEvent''
      then showElement (ref_id (target c)) (showElement (conn_id c) s)
      else s)"

text \<open>
  \<open>showNext(taskId)\<close> reads \<open>element.outgoing\<close> without a guard: an id that is not
  registered raises a TypeError. \<open>forEach\<close> over an undefined collection does nothing.
\<close>

definition showNext :: "ident \<Rightarrow> state \<Rightarrow> error + state" where
  "showNext taskId s =
     (case get s taskId of
        None \<Rightarrow> Inl TypeError
      | Some e \<Rightarrow>
         Inr (fold showOutgoing (case outgoing e of None \<Rightarrow> [] | Some cs \<Rightarrow> cs) s))"

definition bla :: "int \<Rightarrow> int \<Rightarrow> state \<Rightarrow> state" where
  "bla dx dy s = s\<lparr>zoomScroll := zoomScroll s @ [Reset, Scroll dx dy]\<rparr>"

definition PADDING :: int where
  "PADDING = 75"

definition scrollTo :: "ident \<Rightarrow> state \<Rightarrow> state" where
  "scrollTo elementId s =
     (case get s elementId of
        None \<Rightarrow> s
      | Some el \<Rightarrow>
         (let dx = - el_x el + PADDING; dy = - el_y el + PADDING in
          s\<lparr>console := console s @ [ScrollLine elementId dx dy],
            zoomScroll := zoomScroll s @ [Reset, Scroll dx dy]\<rparr>))"

text \<open>
  The \<open>shape.added\<close> handler, as a function of the event's element and graphical node.
  \<open>gfx.image(...)\<close> appends an image to the node.
\<close>

definition image_gfx :: "string \<Rightarrow> int \<Rightarrow> int \<Rightarrow> int \<Rightarrow> int \<Rightarrow> graphics \<Rightarrow> graphics" where
  "image_gfx uri ix iy w h g = g\<lparr>children := children g @ [ImageNode uri ix iy w h]\<rparr>"

text \<open>
  \<open>img.insertBefore(gfx.children()[0])\<close> for the image that was appended last. When the
  image is the only child it is its own reference node and stays where it is.
\<close>

definition insertBefore_first :: "graphics \<Rightarrow> graphics" where
  "insertBefore_first g =
     (case children g of
        [] \<Rightarrow> g
      | _ # _ \<Rightarrow> g\<lparr>children := last (children g) # butlast (children g)\<rparr>)"

definition shapeAdded :: "element \<Rightarrow> graphics \<Rightarrow> graphics" where
  "shapeAdded e g =
     (if el_type e = ''label'' then g
      else
        let bo = businessObject e;
            g1 = (if isType bo ''bpmn:Task'' \<or> isType bo ''bpmn:CallActivity''
                  then insertBefore_first
                         (image_gfx ''resources/scroll.png'' (-20) (-20) (width e + 40) (height e + 40) g)
                  else g);
            g2 = (if isType bo ''bpmn:StartEvent'' \<and> el_type e \<noteq> ''label''
                  then image_gfx ''resources/green-diamond.png'' 0 0 (width e) (height e) g1
                  else g1);
            g3 = (if isType bo ''bpmn:EndEvent'' \<and> el_type e \<noteq> ''label''
                  then image_gfx ''resources/red-diamond.png'' 0 0 (width e) (height e) g2
                  else g2);
            g4 = (if isType bo ''bpmn:Gateway''
                  then image_gfx ''resources/swords.png'' 0 0 (width e + 2) (height e + 2) g3
                  else g3)
        in if isType bo ''bpmn:SubProcess''
           then insertBefore_first (image_gfx ''resources/hell.png'' 0 0 (width e) (height e) g4)
           else g4)"

subsection \<open>Visibility\<close>

text \<open>
  An id is visible when the registry has graphics for it whose \<open>display\<close> attribute is
  not \<open>none\<close>.
\<close>

definition visible :: "state \<Rightarrow> ident \<Rightarrow> bool" where
  "visible s k =
     (case getGraphics s (ById k) of
        None \<Rightarrow> False
      | Some g \<Rightarrow> display g \<noteq> Some ''none'')"

definition registered :: "state \<Rightarrow> ident \<Rightarrow> bool" where
  "registered s k \<longleftrightarrow> k \<in> set (map el_id (registryElements s))"

text \<open>The result of a call that may raise: was it normal, and is an id visible in it.\<close>

definition returns :: "error + state \<Rightarrow> bool" where
  "returns r \<longleftrightarrow> \<not> isl r"

definition visibleIn :: "error + state \<Rightarrow> ident \<Rightarrow> bool" where
  "visibleIn r k \<longleftrightarrow> returns r \<and> visible (projr r) k"

text \<open>\<open>hideAll()\<close> followed by \<open>start()\<close>.\<close>

definition hideAll_start :: "state \<Rightarrow> error + state" where
  "hideAll_start s = (case hideAll s of Inl err \<Rightarrow> Inl err | Inr s1 \<Rightarrow> start s1)"

text \<open>
  A start event directly under a process: the elements for which the callback of
  \<open>start\<close> answers true.
\<close>

definition topLevelStartEvent :: "element \<Rightarrow> bool" where
  "topLevelStartEvent e \<longleftrightarrow>
     isType (businessObject e) ''bpmn:StartEvent'' \<and> parent e = Some ''bpmn:Process''"

text \<open>The connection lists of an element, empty when the property is undefined.\<close>

definition incomingOf :: "element \<Rightarrow> connection list" where
  "incomingOf e = (case incoming e of None \<Rightarrow> [] | Some cs \<Rightarrow> cs)"

definition outgoingOf :: "element \<Rightarrow> connection list" where
  "outgoingOf e = (case outgoing e of None \<Rightarrow> [] | Some cs \<Rightarrow> cs)"

text \<open>The elements that \<open>hideAll\<close> hides: all but the processes.\<close>

definition hidden_by_hideAll :: "state \<Rightarrow> element list" where
  "hidden_by_hideAll s =
     filter (\<lambda>e. \<not> isType (businessObject e) ''bpmn:Process'') (registryElements s)"

text \<open>
  The ids on which one round of the loop of \<open>showElements\<close> calls \<open>show\<close>: the id
  itself and, when the id is registered, the incoming connections whose source id is in
  the collection.
\<close>

definition incomingAt :: "state \<Rightarrow> ident \<Rightarrow> connection list" where
  "incomingAt s k = (case get s k of None \<Rightarrow> [] | Some e \<Rightarrow> incomingOf e)"

definition revealedBy :: "ident list \<Rightarrow> state \<Rightarrow> ident \<Rightarrow> ident list" where
  "revealedBy ks s k =
     k # map conn_id (filter (\<lambda>c. ref_id (source c) \<in> set ks) (incomingAt s k))"

subsection \<open>Well-formed diagrams\<close>

definition connections :: "state \<Rightarrow> connection list" where
  "connections s = concat (map (\<lambda>e. incomingOf e @ outgoingOf e) (registryElements s))"

text \<open>
  The registry refuses a second element under an id that is taken, so the ids of the
  registered elements are distinct.
\<close>

definition uniqueIds :: "state \<Rightarrow> bool" where
  "uniqueIds s \<longleftrightarrow> distinct (map el_id (registryElements s))"

text \<open>
  Only the root has no parent, and the root is not a start event: the callback of
  \<open>start\<close> can read \<open>element.parent.type\<close> of every start event.
\<close>

definition startEventsHaveParent :: "state \<Rightarrow> bool" where
  "startEventsHaveParent s \<longleftrightarrow>
     (\<forall>e \<in> set (registryElements s). isType (businessObject e) ''bpmn:StartEvent'' \<longrightarrow> parent e \<noteq> None)"

text \<open>
  In the running program a connection is one object, shared by the \<open>outgoing\<close> list of
  its source, the \<open>incoming\<close> list of its target and the registry. The model copies
  the fields that are read, so the agreement of the copies is stated here:
  ids are unique; a connection listed as incoming ends at the listing element and one
  listed as outgoing starts there; every connection and both its ends are registered;
  two connection records with one id are the same record; no connection is the end of a
  connection; the registered element of a connection is neither a process nor a start
  event; and the business object seen through \<open>connection.target\<close> is the one of the
  registered target.
\<close>

definition consistent :: "state \<Rightarrow> bool" where
  "consistent s \<longleftrightarrow>
     uniqueIds s \<and>
     (\<forall>e \<in> set (registryElements s).
        (\<forall>c \<in> set (incomingOf e). ref_id (target c) = el_id e) \<and>
        (\<forall>c \<in> set (outgoingOf e). ref_id (source c) = el_id e)) \<and>
     (\<forall>c \<in> set (connections s).
        registered s (conn_id c) \<and> registered s (ref_id (source c)) \<and>
        registered s (ref_id (target c))) \<and>
     (\<forall>c \<in> set (connections s). \<forall>c' \<in> set (connections s).
        conn_id c = conn_id c' \<longrightarrow> c = c') \<and>
     (\<forall>c \<in> set (connections s). \<forall>c' \<in> set (connections s).
        conn_id c \<noteq> ref_id (source c') \<and> conn_id c \<noteq> ref_id (target c')) \<and>
     (\<forall>c \<in> set (connections s). \<forall>e \<in> set (registryElements s).
        el_id e = conn_id c \<longrightarrow>
          \<not> isType (businessObject e) ''bpmn:Process'' \<and>
          \<not> isType (businessObject e) ''bpmn:StartEvent'') \<and>
     (\<forall>c \<in> set (connections s). \<forall>e \<in> set (registryElements s).
        el_id e = ref_id (target c) \<longrightarrow> businessObject e = ref_bo (target c))"

definition gatewayOrEnd :: "connection \<Rightarrow> bool" where
  "gatewayOrEnd c \<longleftrightarrow>
     isType (ref_bo (target c)) ''bpmn:Gateway'' \<or> isType (ref_bo (target c)) ''bpmn:EndEvent''"

subsection \<open>Walks\<close>

datatype operation = Start | ShowElements "ident list" | ShowNext ident

fun perform :: "operation \<Rightarrow> state \<Rightarrow> error + state" where
  "perform Start s = start s"
| "perform (ShowElements ks) s = Inr (showElements ks s)"
| "perform (ShowNext t) s = showNext t s"

definition run :: "operation list \<Rightarrow> state \<Rightarrow> error + state" where
  "run ops s = forEach ops perform s"

text \<open>
  No dangling edge: every visible connection has a visible source.
\<close>

definition noDanglingEdge :: "state \<Rightarrow> bool" where
  "noDanglingEdge s \<longleftrightarrow>
     (\<forall>c \<in> set (connections s). visible s (conn_id c) \<longrightarrow> visible s (ref_id (source c)))"

text \<open>
  A walk that keeps to the protocol of the walker: \<open>showElements\<close> is given ids of
  shapes (no id of a connection), and \<open>showNext\<close> is given an id that is visible when
  it is called.
\<close>

fun allowed :: "operation \<Rightarrow> state \<Rightarrow> bool" where
  "allowed Start s = True"
| "allowed (ShowElements ks) s = (\<forall>c \<in> set (connections s). conn_id c \<notin> set ks)"
| "allowed (ShowNext t) s = visible s t"

fun admissible :: "operation list \<Rightarrow> state \<Rightarrow> bool" where
  "admissible [] s = True"
| "admissible (x # xs) s =
     (allowed x s \<and> (case perform x s of Inl err \<Rightarrow> True | Inr s' \<Rightarrow> admissible xs s'))"

subsection \<open>An example diagram\<close>

text \<open>
  A process \<open>P\<close> with the flow \<open>A \<rightarrow> B \<rightarrow> C\<close> (start event, task, end event), the
  label of \<open>A\<close>, and a start event \<open>D\<close> nested in the sub-process \<open>S\<close>. Nothing has been
  hidden or shown yet.
\<close>

definition mkElement ::
  "ident \<Rightarrow> string \<Rightarrow> string list \<Rightarrow> string option \<Rightarrow> connection list \<Rightarrow> connection list
     \<Rightarrow> int \<Rightarrow> int \<Rightarrow> element" where
  "mkElement k t bo p ins outs px py =
     \<lparr>el_id = k, el_type = t, businessObject = bo, parent = p, incoming = Some ins,
      outgoing = Some outs, el_x = px, el_y = py, width = 36, height = 36\<rparr>"

definition flowAB :: connection where
  "flowAB = \<lparr>conn_id = ''Flow_AB'',
             source = \<lparr>ref_id = ''A'', ref_bo = [''bpmn:StartEvent'']\<rparr>,
             target = \<lparr>ref_id = ''B'', ref_bo = [''bpmn:Task'']\<rparr>\<rparr>"

definition flowBC :: connection where
  "flowBC = \<lparr>conn_id = ''Flow_BC'',
             source = \<lparr>ref_id = ''B'', ref_bo = [''bpmn:Task'']\<rparr>,
             target = \<lparr>ref_id = ''C'', ref_bo = [''bpmn:EndEvent'']\<rparr>\<rparr>"

definition elementA :: element where
  "elementA = mkElement ''A'' ''bpmn:StartEvent'' [''bpmn:StartEvent''] (Some ''bpmn:Process'')
                [] [flowAB] 100 200"

definition elementB :: element where
  "elementB = mkElement ''B'' ''bpmn:Task'' [''bpmn:Task''] (Some ''bpmn:Process'')
                [flowAB] [flowBC] 200 180"

definition labelA :: element where
  "labelA = mkElement ''A_label'' ''label'' [''bpmn:StartEvent''] (Some ''bpmn:Process'')
                [] [] 90 240"

definition processP :: element where
  "processP = mkElement ''P'' ''bpmn:Process'' [''bpmn:Process''] None [] [] 0 0"

definition demoElements :: "element list" where
  "demoElements =
     [processP,
      elementA,
      labelA,
      elementB,
      mkElement ''C'' ''bpmn:EndEvent'' [''bpmn:EndEvent''] (Some ''bpmn:Process'') [flowBC] [] 400 200,
      mkElement ''Flow_AB'' ''bpmn:SequenceFlow'' [''bpmn:SequenceFlow''] (Some ''bpmn:Process'') [] [] 0 0,
      mkElement ''Flow_BC'' ''bpmn:SequenceFlow'' [''bpmn:SequenceFlow''] (Some ''bpmn:Process'') [] [] 0 0,
      mkElement ''S'' ''bpmn:SubProcess'' [''bpmn:SubProcess''] (Some ''bpmn:Process'') [] [] 300 300,
      mkElement ''D'' ''bpmn:StartEvent'' [''bpmn:StartEvent''] (Some ''bpmn:SubProcess'') [] [] 320 320]"

definition freshGfx :: graphics where
  "freshGfx = \<lparr>display = None, children = [VisualNode]\<rparr>"

definition demo :: state where
  "demo = \<lparr>elements = map (\<lambda>e. \<lparr>element = e, gfx = freshGfx\<rparr>) demoElements,
           console = [], zoomScroll = []\<rparr>"

text \<open>The example after \<open>hideAll()\<close>: the reset state.\<close>

definition demoHidden :: state where
  "demoHidden = projr (hideAll demo)"

text \<open>The example after \<open>start()\<close>, and after the task \<open>B\<close> has been entered.\<close>

definition demoStarted :: state where
  "demoStarted = projr (start demo)"

definition demoEntered :: state where
  "demoEntered = showElements [''A'', ''B''] demoStarted"

section \<open>Basic facts about the registry\<close>

lemma find_map_gfx:
  "find (\<lambda>en. el_id (element en) = k')
        (map (\<lambda>en. if el_id (element en) = k then en\<lparr>gfx := F (gfx en)\<rparr> else en) xs)
   = map_option (\<lambda>en. if k' = k then en\<lparr>gfx := F (gfx en)\<rparr> else en)
        (find (\<lambda>en. el_id (element en) = k') xs)"
  by (induction xs) auto

lemma lookup_attr_display:
  "lookup (attr_display v k s) k' =
     map_option (\<lambda>en. if k' = k then en\<lparr>gfx := (gfx en)\<lparr>display := Some v\<rparr>\<rparr> else en) (lookup s k')"
  unfolding lookup_def attr_display_def
  using find_map_gfx [of k' k "\<lambda>g. g\<lparr>display := Some v\<rparr>" "elements s"] by simp

lemma registryElements_attr_display [simp]:
  "registryElements (attr_display v k s) = registryElements s"
  by (simp add: registryElements_def attr_display_def comp_def)

lemma lookup_None_iff: "lookup s k = None \<longleftrightarrow> \<not> registered s k"
  by (auto simp: lookup_def registered_def registryElements_def find_None_iff)

lemma registered_cong: "registryElements s' = registryElements s \<Longrightarrow> registered s' k = registered s k"
  by (simp add: registered_def)

lemma find_map_element:
  "map_option element (find (\<lambda>en. el_id (element en) = k) xs) = find (\<lambda>e. el_id e = k) (map element xs)"
  by (induction xs) auto

lemma get_registryElements: "get s k = find (\<lambda>e. el_id e = k) (registryElements s)"
  unfolding get_def lookup_def registryElements_def by (rule find_map_element)

lemma get_cong: "registryElements s' = registryElements s \<Longrightarrow> get s' k = get s k"
  by (simp add: get_registryElements)

lemma connections_cong: "registryElements s' = registryElements s \<Longrightarrow> connections s' = connections s"
  by (simp add: connections_def)

lemma visible_attr_display:
  "visible (attr_display v k s) k' \<longleftrightarrow>
     (if k' = k then registered s k \<and> v \<noteq> ''none'' else visible s k')"
  using lookup_None_iff [of s k]
  by (cases "lookup s k'") (auto simp: visible_def getGraphics_def lookup_attr_display)

lemma registryElements_showElement [simp]:
  "registryElements (showElement k s) = registryElements s"
  by (simp add: showElement_def split: option.splits)

lemma visible_registered: "visible s k \<Longrightarrow> registered s k"
  using lookup_None_iff [of s k] by (auto simp: visible_def getGraphics_def split: option.splits)

lemma showElement_registered: "registered s k \<Longrightarrow> showElement k s = attr_display ''inline'' k s"
  using lookup_None_iff [of s k] by (auto simp: showElement_def getGraphics_def split: option.splits)

lemma showElement_unregistered: "\<not> registered s k \<Longrightarrow> showElement k s = s"
  using lookup_None_iff [of s k] by (auto simp: showElement_def getGraphics_def split: option.splits)

lemma visible_showElement:
  "visible (showElement k s) k' \<longleftrightarrow> visible s k' \<or> (k' = k \<and> registered s k)"
proof (cases "registered s k")
  case True
  then show ?thesis
    using visible_registered [of s k']
    by (auto simp: showElement_registered visible_attr_display)
next
  case False
  then show ?thesis by (simp add: showElement_unregistered)
qed


lemma attr_display_twice: "attr_display v k (attr_display v k s) = attr_display v k s"
  by (simp add: attr_display_def comp_def cong: map_cong)


section \<open>Facts about hideAll and start\<close>

lemma filter_elements_total:
  "filter_elements (\<lambda>e. Inr (p e)) es = Inr (filter p es)"
  by (induction es) auto

lemma filter_elements_startCallback:
  "\<forall>e \<in> set es. isType (businessObject e) ''bpmn:StartEvent'' \<longrightarrow> parent e \<noteq> None \<Longrightarrow>
   filter_elements startCallback es = Inr (filter topLevelStartEvent es)"
  by (induction es) (auto simp: startCallback_def topLevelStartEvent_def split: option.splits)

lemma hide_registered:
  "registered s (filter_id f) \<Longrightarrow> hide f s = Inr (attr_display ''none'' (filter_id f) s)"
  using lookup_None_iff [of s "filter_id f"]
  by (auto simp: hide_def getGraphics_def split: option.splits)

lemma hide_unregistered:
  "\<not> registered s (filter_id f) \<Longrightarrow> hide f s = Inl TypeError"
  using lookup_None_iff [of s "filter_id f"]
  by (simp add: hide_def getGraphics_def)

lemma registered_attr_display [simp]: "registered (attr_display v k s) k' = registered s k'"
  by (simp add: registered_def)

lemma registered_showElement [simp]: "registered (showElement k s) k' = registered s k'"
  by (simp add: registered_def)

lemma forEach_hide:
  "\<forall>e \<in> set es. registered s (el_id e) \<Longrightarrow>
   forEach es (\<lambda>e. hide (ByElement e)) s = Inr (fold (\<lambda>e. attr_display ''none'' (el_id e)) es s)"
  by (induction es arbitrary: s) (simp_all add: hide_registered)

lemma registryElements_fold_hide [simp]:
  "registryElements (fold (\<lambda>e. attr_display ''none'' (el_id e)) es s) = registryElements s"
  by (induction es arbitrary: s) simp_all

lemma visible_fold_hide:
  "visible (fold (\<lambda>e. attr_display ''none'' (el_id e)) es s) k \<longleftrightarrow>
     visible s k \<and> k \<notin> el_id ` set es"
  by (induction es arbitrary: s) (auto simp: visible_attr_display)

lemma registryElements_fold_show [simp]:
  "registryElements (fold (\<lambda>e. showElement (el_id e)) es s) = registryElements s"
  by (induction es arbitrary: s) simp_all

lemma visible_fold_show:
  "visible (fold (\<lambda>e. showElement (el_id e)) es s) k \<longleftrightarrow>
     visible s k \<or> (k \<in> el_id ` set es \<and> registered s k)"
  by (induction es arbitrary: s) (auto simp: visible_showElement)

lemma hideAll_eq:
  "hideAll s = Inr (fold (\<lambda>e. attr_display ''none'' (el_id e)) (hidden_by_hideAll s) s)"
proof -
  have "\<forall>e \<in> set (hidden_by_hideAll s). registered s (el_id e)"
    by (auto simp: hidden_by_hideAll_def registered_def)
  then show ?thesis
    by (simp add: hideAll_def registry_filter_def filter_elements_total forEach_hide
        hidden_by_hideAll_def)
qed

lemma hideAll_effect:
  "\<exists>s'. hideAll s = Inr s' \<and> registryElements s' = registryElements s \<and>
     (\<forall>k. visible s' k \<longleftrightarrow> visible s k \<and> k \<notin> el_id ` set (hidden_by_hideAll s))"
  by (simp add: hideAll_eq visible_fold_hide)

lemma start_effect:
  assumes "startEventsHaveParent s"
  shows "\<exists>s'. start s = Inr s' \<and> registryElements s' = registryElements s \<and>
     (\<forall>k. visible s' k \<longleftrightarrow>
        (visible s k \<and> k \<notin> el_id ` set (hidden_by_hideAll s)) \<or>
        k \<in> el_id ` set (filter topLevelStartEvent (registryElements s)))"
proof -
  obtain s1 where h: "hideAll s = Inr s1" and r: "registryElements s1 = registryElements s"
    and v: "\<And>k. visible s1 k \<longleftrightarrow> visible s k \<and> k \<notin> el_id ` set (hidden_by_hideAll s)"
    using hideAll_effect [of s] by blast
  have f: "registry_filter startCallback s1 = Inr (filter topLevelStartEvent (registryElements s))"
    using assms r
    by (simp add: registry_filter_def startEventsHaveParent_def filter_elements_startCallback)
  let ?s' = "fold (\<lambda>e. showElement (el_id e)) (filter topLevelStartEvent (registryElements s)) s1"
  have st: "start s = Inr ?s'" by (simp add: start_def h f)
  have reg: "\<And>k. k \<in> el_id ` set (filter topLevelStartEvent (registryElements s)) \<Longrightarrow> registered s1 k"
    using r by (auto simp: registered_def)
  have "\<And>k. visible ?s' k \<longleftrightarrow>
        (visible s k \<and> k \<notin> el_id ` set (hidden_by_hideAll s)) \<or>
        k \<in> el_id ` set (filter topLevelStartEvent (registryElements s))"
    using reg by (auto simp: visible_fold_show v)
  then show ?thesis using st r by simp
qed

lemma get_Some_iff:
  "uniqueIds s \<Longrightarrow> get s k = Some e \<longleftrightarrow> e \<in> set (registryElements s) \<and> el_id e = k"
proof -
  have "distinct (map el_id es) \<Longrightarrow>
        find (\<lambda>e. el_id e = k) es = Some e \<longleftrightarrow> e \<in> set es \<and> el_id e = k" for es
    by (induction es) (auto)
  then show "uniqueIds s \<Longrightarrow> get s k = Some e \<longleftrightarrow> e \<in> set (registryElements s) \<and> el_id e = k"
    by (simp add: get_registryElements uniqueIds_def)
qed

lemma get_None_iff: "get s k = None \<longleftrightarrow> \<not> registered s k"
  by (simp add: get_def lookup_None_iff)

lemma demo_uniqueIds: "uniqueIds demo" by code_simp
lemma demo_startEventsHaveParent: "startEventsHaveParent demo" by code_simp

section \<open>Facts about showElements\<close>

lemma indexOf_from_absent:
  "0 \<le> i \<Longrightarrow> indexOf_from i xs v = -1 \<longleftrightarrow> v \<notin> set xs"
  by (induction xs arbitrary: i) auto

lemma indexOf_member: "indexOf xs v \<noteq> -1 \<longleftrightarrow> v \<in> set xs"
  by (simp add: indexOf_def indexOf_from_absent)

lemma registryElements_showIncoming [simp]:
  "registryElements (showIncoming ks c s) = registryElements s"
  by (simp add: showIncoming_def)

lemma registryElements_fold_showIncoming [simp]:
  "registryElements (fold (showIncoming ks) cs s) = registryElements s"
  by (induction cs arbitrary: s) simp_all

lemma registered_fold_showIncoming [simp]:
  "registered (fold (showIncoming ks) cs s) k = registered s k"
  by (simp add: registered_def)

lemma visible_showIncoming:
  "visible (showIncoming ks c s) k \<longleftrightarrow>
     visible s k \<or> (registered s k \<and> k = conn_id c \<and> ref_id (source c) \<in> set ks)"
  by (auto simp: showIncoming_def indexOf_member visible_showElement)

lemma visible_fold_showIncoming:
  "visible (fold (showIncoming ks) cs s) k \<longleftrightarrow>
     visible s k \<or>
     (registered s k \<and> k \<in> conn_id ` set (filter (\<lambda>c. ref_id (source c) \<in> set ks) cs))"
  by (induction cs arbitrary: s) (auto simp: visible_showIncoming registered_def)

lemma registryElements_console [simp]:
  "registryElements (s\<lparr>console := l\<rparr>) = registryElements s"
  by (simp add: registryElements_def)

lemma visible_console [simp]: "visible (s\<lparr>console := l\<rparr>) k = visible s k"
  by (simp add: visible_def getGraphics_def lookup_def)

lemma registryElements_showElementsStep [simp]:
  "registryElements (showElementsStep ks k s) = registryElements s"
  by (simp add: showElementsStep_def Let_def split: option.splits)

lemma get_showElement [simp]: "get (showElement k s) k' = get s k'"
  by (simp add: get_registryElements)

lemma visible_showElementsStep:
  "visible (showElementsStep ks i s) k \<longleftrightarrow>
     visible s k \<or> (registered s k \<and> k \<in> set (revealedBy ks s i))"
  by (auto simp: showElementsStep_def Let_def revealedBy_def incomingAt_def incomingOf_def
      visible_fold_showIncoming visible_showElement split: option.splits)

lemma revealedBy_cong:
  "registryElements s' = registryElements s \<Longrightarrow> revealedBy ks s' i = revealedBy ks s i"
  by (simp add: revealedBy_def incomingAt_def get_registryElements)

lemma registryElements_fold_step [simp]:
  "registryElements (fold (showElementsStep ks) js s) = registryElements s"
  by (induction js arbitrary: s) simp_all

lemma visible_fold_step:
  "visible (fold (showElementsStep ks) js s) k \<longleftrightarrow>
     visible s k \<or> (registered s k \<and> (\<exists>i \<in> set js. k \<in> set (revealedBy ks s i)))"
proof (induction js arbitrary: s)
  case Nil
  then show ?case by simp
next
  case (Cons i js)
  have r: "registered (showElementsStep ks i s) k = registered s k"
    by (simp add: registered_def)
  have c: "\<And>j. revealedBy ks (showElementsStep ks i s) j = revealedBy ks s j"
    by (rule revealedBy_cong) simp
  have "visible (fold (showElementsStep ks) (i # js) s) k \<longleftrightarrow>
        visible (showElementsStep ks i s) k \<or>
        (registered s k \<and> (\<exists>j \<in> set js. k \<in> set (revealedBy ks s j)))"
    using Cons.IH [of "showElementsStep ks i s"] unfolding r c by simp
  also have "\<dots> \<longleftrightarrow> visible s k \<or>
        (registered s k \<and> (\<exists>j \<in> set (i # js). k \<in> set (revealedBy ks s j)))"
    unfolding visible_showElementsStep by auto
  finally show ?case .
qed

lemma visible_showElements:
  "visible (showElements ks s) k \<longleftrightarrow>
     visible s k \<or> (registered s k \<and> (\<exists>i \<in> set ks. k \<in> set (revealedBy ks s i)))"
  by (simp add: showElements_def visible_fold_step)

lemma registryElements_showElements [simp]:
  "registryElements (showElements ks s) = registryElements s"
  by (simp add: showElements_def)

lemma incoming_in_connections:
  "e \<in> set (registryElements s) \<Longrightarrow> c \<in> set (incomingOf e) \<Longrightarrow> c \<in> set (connections s)"
  by (auto simp: connections_def)

lemma outgoing_in_connections:
  "e \<in> set (registryElements s) \<Longrightarrow> c \<in> set (outgoingOf e) \<Longrightarrow> c \<in> set (connections s)"
  by (auto simp: connections_def)

lemma demo_consistent: "consistent demo" by code_simp

lemma demoHidden_consistent: "consistent demoHidden" by code_simp

section \<open>Facts about showNext\<close>

lemma registryElements_showOutgoing [simp]:
  "registryElements (showOutgoing c s) = registryElements s"
  by (simp add: showOutgoing_def)

lemma registryElements_fold_showOutgoing [simp]:
  "registryElements (fold showOutgoing cs s) = registryElements s"
  by (induction cs arbitrary: s) simp_all

lemma visible_showOutgoing:
  "visible (showOutgoing c s) k \<longleftrightarrow>
     visible s k \<or>
     (registered s k \<and> gatewayOrEnd c \<and> (k = conn_id c \<or> k = ref_id (target c)))"
  by (auto simp: showOutgoing_def gatewayOrEnd_def visible_showElement)

lemma visible_fold_showOutgoing:
  "visible (fold showOutgoing cs s) k \<longleftrightarrow>
     visible s k \<or>
     (registered s k \<and>
      (\<exists>c \<in> set cs. gatewayOrEnd c \<and> (k = conn_id c \<or> k = ref_id (target c))))"
proof (induction cs arbitrary: s)
  case Nil
  then show ?case by simp
next
  case (Cons c cs)
  have r: "registered (showOutgoing c s) k = registered s k" by (simp add: registered_def)
  show ?case
    unfolding fold_simps Cons.IH r visible_showOutgoing by auto
qed

lemma showNext_registered:
  "get s t = Some e \<Longrightarrow> showNext t s = Inr (fold showOutgoing (outgoingOf e) s)"
  by (simp add: showNext_def outgoingOf_def)

lemma showNext_unregistered:
  "\<not> registered s t \<Longrightarrow> showNext t s = Inl TypeError"
  using lookup_None_iff [of s t] by (simp add: showNext_def get_def)

lemma visible_get: "visible s k \<Longrightarrow> \<exists>e. get s k = Some e"
  using visible_registered [of s k] get_None_iff [of s k] by (cases "get s k") auto

lemma registered_element:
  "registered s k \<Longrightarrow> \<exists>e \<in> set (registryElements s). el_id e = k"
  by (auto simp: registered_def)

lemma demoStarted_consistent: "consistent demoStarted" by code_simp
lemma demoEntered_consistent: "consistent demoEntered" by code_simp

section \<open>The invariant of a walk\<close>

lemma consistent_cong:
  "registryElements s' = registryElements s \<Longrightarrow> consistent s' = consistent s"
  by (simp add: consistent_def uniqueIds_def connections_def registered_def)

lemma startEventsHaveParent_cong:
  "registryElements s' = registryElements s \<Longrightarrow> startEventsHaveParent s' = startEventsHaveParent s"
  by (simp add: startEventsHaveParent_def)

lemma connection_hidden_by_hideAll:
  assumes "consistent s" and "c \<in> set (connections s)"
  shows "conn_id c \<in> el_id ` set (hidden_by_hideAll s)"
    and "conn_id c \<notin> el_id ` set (filter topLevelStartEvent (registryElements s))"
proof -
  have k: "\<And>x. x \<in> set (registryElements s) \<Longrightarrow> el_id x = conn_id c \<Longrightarrow>
      \<not> isType (businessObject x) ''bpmn:Process'' \<and> \<not> isType (businessObject x) ''bpmn:StartEvent''"
    using assms unfolding consistent_def by blast
  have "registered s (conn_id c)" using assms by (simp add: consistent_def)
  then obtain x where x: "x \<in> set (registryElements s)" "el_id x = conn_id c"
    using registered_element by blast
  then have "x \<in> set (hidden_by_hideAll s)" using k [OF x] by (simp add: hidden_by_hideAll_def)
  then show "conn_id c \<in> el_id ` set (hidden_by_hideAll s)" using x(2) by (metis imageI)
  show "conn_id c \<notin> el_id ` set (filter topLevelStartEvent (registryElements s))"
  proof
    assume "conn_id c \<in> el_id ` set (filter topLevelStartEvent (registryElements s))"
    then obtain y where y: "y \<in> set (registryElements s)" "el_id y = conn_id c" "topLevelStartEvent y"
      by auto
    then show False using k [OF y(1,2)] by (simp add: topLevelStartEvent_def)
  qed
qed

lemma hideAll_noDanglingEdge:
  assumes "consistent s0" and "hideAll s0 = Inr s"
  shows "noDanglingEdge s"
proof -
  have r: "registryElements s = registryElements s0"
    and v: "\<And>k. visible s k \<longleftrightarrow> visible s0 k \<and> k \<notin> el_id ` set (hidden_by_hideAll s0)"
    using hideAll_effect [of s0] assms(2) by auto
  have "\<not> visible s (conn_id c)" if "c \<in> set (connections s)" for c
  proof -
    have "c \<in> set (connections s0)" using that connections_cong [OF r] by simp
    then show ?thesis using connection_hidden_by_hideAll(1) [OF assms(1)] v by blast
  qed
  then show ?thesis by (simp add: noDanglingEdge_def)
qed

lemma start_noDanglingEdge:
  assumes "consistent s" and "startEventsHaveParent s"
  shows "\<exists>s'. start s = Inr s' \<and> registryElements s' = registryElements s \<and> noDanglingEdge s'"
proof -
  obtain s' where st: "start s = Inr s'" and r: "registryElements s' = registryElements s"
    and v: "\<And>k. visible s' k \<longleftrightarrow>
        (visible s k \<and> k \<notin> el_id ` set (hidden_by_hideAll s)) \<or>
        k \<in> el_id ` set (filter topLevelStartEvent (registryElements s))"
    using start_effect [OF assms(2)] by blast
  have "\<not> visible s' (conn_id c)" if "c \<in> set (connections s')" for c
  proof -
    have "c \<in> set (connections s)" using that connections_cong [OF r] by simp
    then show ?thesis
      using connection_hidden_by_hideAll [OF assms(1)] v by blast
  qed
  then have "noDanglingEdge s'" by (simp add: noDanglingEdge_def)
  then show ?thesis using st r by blast
qed

lemma showElements_noDanglingEdge:
  assumes "consistent s" and "noDanglingEdge s"
    and "\<forall>c \<in> set (connections s). conn_id c \<notin> set ks"
  shows "noDanglingEdge (showElements ks s)"
proof -
  have u: "uniqueIds s" using assms(1) by (simp add: consistent_def)
  have "visible (showElements ks s) (ref_id (source c))"
    if c: "c \<in> set (connections s)" and vis: "visible (showElements ks s) (conn_id c)" for c
  proof (cases "visible s (conn_id c)")
    case True
    then have "visible s (ref_id (source c))" using assms(2) c by (simp add: noDanglingEdge_def)
    then show ?thesis by (simp add: visible_showElements)
  next
    case False
    then obtain i where i: "i \<in> set ks" "conn_id c \<in> set (revealedBy ks s i)"
      using vis unfolding visible_showElements by blast
    have "conn_id c \<noteq> i" using i(1) assms(3) c by metis
    then obtain c' where c': "c' \<in> set (incomingAt s i)" "conn_id c' = conn_id c"
      "ref_id (source c') \<in> set ks"
      using i(2) by (auto simp: revealedBy_def)
    then obtain x where x: "get s i = Some x" "c' \<in> set (incomingOf x)"
      by (cases "get s i") (auto simp: incomingAt_def)
    then have "x \<in> set (registryElements s)" using get_Some_iff [OF u] by simp
    then have cc: "c' \<in> set (connections s)" using x(2) incoming_in_connections by blast
    have "c' = c" using assms(1) cc c c'(2) unfolding consistent_def by blast
    then have src: "ref_id (source c) \<in> set ks" using c'(3) by simp
    have reg: "registered s (ref_id (source c))" using assms(1) c by (simp add: consistent_def)
    have "ref_id (source c) \<in> set (revealedBy ks s (ref_id (source c)))"
      by (simp add: revealedBy_def)
    then show ?thesis unfolding visible_showElements using src reg by blast
  qed
  then show ?thesis
    unfolding noDanglingEdge_def using connections_cong [OF registryElements_showElements] by simp
qed

lemma showNext_noDanglingEdge:
  assumes "consistent s" and "noDanglingEdge s" and "visible s t"
  shows "\<exists>s'. showNext t s = Inr s' \<and> registryElements s' = registryElements s \<and> noDanglingEdge s'"
proof -
  obtain e where ge: "get s t = Some e" using visible_get [OF assms(3)] by blast
  have u: "uniqueIds s" using assms(1) by (simp add: consistent_def)
  have em: "e \<in> set (registryElements s)" "el_id e = t" using get_Some_iff [OF u] ge by simp_all
  let ?s' = "fold showOutgoing (outgoingOf e) s"
  have sn: "showNext t s = Inr ?s'" using ge by (rule showNext_registered)
  have r: "registryElements ?s' = registryElements s" by simp
  have mono: "\<And>k. visible s k \<Longrightarrow> visible ?s' k" by (simp add: visible_fold_showOutgoing)
  have "visible ?s' (ref_id (source c))"
    if c: "c \<in> set (connections s)" and vis: "visible ?s' (conn_id c)" for c
  proof (cases "visible s (conn_id c)")
    case True
    then have "visible s (ref_id (source c))" using assms(2) c by (simp add: noDanglingEdge_def)
    then show ?thesis by (rule mono)
  next
    case False
    then obtain c2 where c2: "c2 \<in> set (outgoingOf e)"
      "conn_id c = conn_id c2 \<or> conn_id c = ref_id (target c2)"
      using vis unfolding visible_fold_showOutgoing by blast
    have cc2: "c2 \<in> set (connections s)" using em(1) c2(1) outgoing_in_connections by blast
    have "conn_id c \<noteq> ref_id (target c2)" using assms(1) c cc2 unfolding consistent_def by blast
    then have "conn_id c2 = conn_id c" using c2(2) by metis
    then have "c2 = c" using assms(1) c cc2 unfolding consistent_def by blast
    then have "c \<in> set (outgoingOf e)" using c2(1) by simp
    then have "ref_id (source c) = el_id e" using assms(1) em(1) unfolding consistent_def by blast
    then have "ref_id (source c) = t" using em(2) by simp
    then show ?thesis using mono [OF assms(3)] by simp
  qed
  then have "noDanglingEdge ?s'"
    unfolding noDanglingEdge_def using connections_cong [OF r] by simp
  then show ?thesis using sn r by blast
qed

lemma perform_noDanglingEdge:
  assumes "consistent s" and "startEventsHaveParent s" and "noDanglingEdge s" and "allowed x s"
  shows "\<exists>s'. perform x s = Inr s' \<and> registryElements s' = registryElements s \<and> noDanglingEdge s'"
proof (cases x)
  case Start
  then show ?thesis using start_noDanglingEdge [OF assms(1,2)] by simp
next
  case (ShowElements ks)
  then show ?thesis using showElements_noDanglingEdge [OF assms(1,3)] assms(4) by simp
next
  case (ShowNext t)
  then show ?thesis using showNext_noDanglingEdge [OF assms(1,3)] assms(4) by simp
qed

lemma run_noDanglingEdge:
  "consistent s \<Longrightarrow> startEventsHaveParent s \<Longrightarrow> noDanglingEdge s \<Longrightarrow> admissible xs s \<Longrightarrow>
   \<exists>s'. run xs s = Inr s' \<and> noDanglingEdge s'"
proof (induction xs arbitrary: s)
  case Nil
  then show ?case by (simp add: run_def)
next
  case (Cons x xs)
  have al: "allowed x s" using Cons.prems(4) by simp
  obtain s1 where p: "perform x s = Inr s1" and r: "registryElements s1 = registryElements s"
    and n: "noDanglingEdge s1"
    using perform_noDanglingEdge [OF Cons.prems(1,2,3) al] by blast
  have c1: "consistent s1" using Cons.prems(1) consistent_cong [OF r] by simp
  have h1: "startEventsHaveParent s1" using Cons.prems(2) startEventsHaveParent_cong [OF r] by simp
  have a1: "admissible xs s1" using Cons.prems(4) p by simp
  obtain s' where "run xs s1 = Inr s'" "noDanglingEdge s'"
    using Cons.IH [OF c1 h1 n a1] by blast
  then show ?case using p by (auto simp: run_def)
qed

lemma hideAll_demo: "hideAll demo = Inr demoHidden"
  using hideAll_effect [of demo] by (auto simp: demoHidden_def)

section \<open>The claims\<close>

text \<open>
  C1, as stated. The claim fails: \<open>hideAll\<close> leaves out the elements that are
  a \<open>bpmn:Process\<close>, so after \<open>hideAll(); start()\<close> the process \<open>P\<close> of the example is
  visible although it is no start event.
\<close>

theorem hideAll_start_reveals_counterexample:
  "visibleIn (hideAll_start demo) ''P'' \<and> get demo ''P'' = Some processP \<and>
   \<not> topLevelStartEvent processP"
  by code_simp

text \<open>
  C1, amended. On a registry with unique ids in which every start event has a parent,
  \<open>hideAll()\<close> followed by \<open>start()\<close> returns normally, and afterwards an id is visible
  exactly when it is registered and its element is a start event (by \<open>is\<close>, so the label of
  a start event counts) whose parent is a \<open>bpmn:Process\<close>, or its element is a process
  that was visible before. So no start event nested in a sub-process is visible, and no
  connection or other element that is not a process.
\<close>

theorem hideAll_start_reveals:
  assumes "uniqueIds s" and "startEventsHaveParent s"
  shows "\<exists>s'. hideAll_start s = Inr s' \<and>
     (\<forall>k. visible s' k \<longleftrightarrow>
        (case get s k of
           None \<Rightarrow> False
         | Some e \<Rightarrow> topLevelStartEvent e \<or>
                      (isType (businessObject e) ''bpmn:Process'' \<and> visible s k)))"
proof -
  obtain s1 where h: "hideAll s = Inr s1" and r: "registryElements s1 = registryElements s"
    and v: "\<And>k. visible s1 k \<longleftrightarrow> visible s k \<and> k \<notin> el_id ` set (hidden_by_hideAll s)"
    using hideAll_effect [of s] by blast
  have p1: "startEventsHaveParent s1" using assms(2) r by (simp add: startEventsHaveParent_def)
  obtain s2 where st: "start s1 = Inr s2"
    and v2: "\<And>k. visible s2 k \<longleftrightarrow>
        (visible s1 k \<and> k \<notin> el_id ` set (hidden_by_hideAll s1)) \<or>
        k \<in> el_id ` set (filter topLevelStartEvent (registryElements s1))"
    using start_effect [OF p1] by blast
  have hb: "hidden_by_hideAll s1 = hidden_by_hideAll s" by (simp add: hidden_by_hideAll_def r)
  have "visible s2 k \<longleftrightarrow>
        (case get s k of
           None \<Rightarrow> False
         | Some e \<Rightarrow> topLevelStartEvent e \<or>
                      (isType (businessObject e) ''bpmn:Process'' \<and> visible s k))" for k
  proof (cases "get s k")
    case None
    then have "\<not> registered s k" by (simp add: get_None_iff)
    then have "\<not> visible s k" "k \<notin> el_id ` set (registryElements s)"
      using visible_registered [of s k] by (auto simp: registered_def)
    then show ?thesis using None by (auto simp: v2 v r)
  next
    case (Some e)
    then have e: "e \<in> set (registryElements s)" "el_id e = k"
      using get_Some_iff [OF assms(1)] by auto
    have u: "e' = e" if "e' \<in> set (registryElements s)" "el_id e' = k" for e'
    proof -
      have "get s k = Some e'" using that get_Some_iff [OF assms(1), of k e'] by simp
      then show ?thesis using Some by simp
    qed
    have a: "k \<in> el_id ` set (hidden_by_hideAll s) \<longleftrightarrow> \<not> isType (businessObject e) ''bpmn:Process''"
    proof
      assume "k \<in> el_id ` set (hidden_by_hideAll s)"
      then obtain e' where "e' \<in> set (registryElements s)" "el_id e' = k"
        "\<not> isType (businessObject e') ''bpmn:Process''"
        unfolding hidden_by_hideAll_def by auto
      then show "\<not> isType (businessObject e) ''bpmn:Process''" using u [of e'] by simp
    next
      assume "\<not> isType (businessObject e) ''bpmn:Process''"
      then have "e \<in> set (hidden_by_hideAll s)" using e(1) by (simp add: hidden_by_hideAll_def)
      then show "k \<in> el_id ` set (hidden_by_hideAll s)" using e(2) by blast
    qed
    have b: "k \<in> el_id ` set (filter topLevelStartEvent (registryElements s)) \<longleftrightarrow> topLevelStartEvent e"
    proof
      assume "k \<in> el_id ` set (filter topLevelStartEvent (registryElements s))"
      then obtain e' where "e' \<in> set (registryElements s)" "el_id e' = k" "topLevelStartEvent e'"
        by auto
      then show "topLevelStartEvent e" using u [of e'] by simp
    next
      assume "topLevelStartEvent e"
      then have "e \<in> set (filter topLevelStartEvent (registryElements s))" using e(1) by simp
      then show "k \<in> el_id ` set (filter topLevelStartEvent (registryElements s))"
        using e(2) by blast
    qed
    have "visible s2 k \<longleftrightarrow> (visible s k \<and> isType (businessObject e) ''bpmn:Process'') \<or> topLevelStartEvent e"
      unfolding v2 v r hb a b by blast
    then show ?thesis using Some by auto
  qed
  then show ?thesis by (simp add: hideAll_start_def h st)
qed

theorem hideAll_start_reveals_witness:
  "uniqueIds demo \<and> startEventsHaveParent demo \<and>
   (\<exists>s'. hideAll_start demo = Inr s' \<and> visible s' ''A'' \<and> visible s' ''A_label'' \<and>
      \<not> visible s' ''B'' \<and> \<not> visible s' ''Flow_AB'' \<and> \<not> visible s' ''D'')"
proof -
  obtain s' where r: "hideAll_start demo = Inr s'"
    and v: "\<And>k. visible s' k \<longleftrightarrow>
        (case get demo k of
           None \<Rightarrow> False
         | Some e \<Rightarrow> topLevelStartEvent e \<or>
                      (isType (businessObject e) ''bpmn:Process'' \<and> visible demo k))"
    using hideAll_start_reveals [OF demo_uniqueIds demo_startEventsHaveParent] by blast
  have a: "visible s' ''A''" unfolding v by code_simp
  have l: "visible s' ''A_label''" unfolding v by code_simp
  have b: "\<not> visible s' ''B''" unfolding v by code_simp
  have f: "\<not> visible s' ''Flow_AB''" unfolding v by code_simp
  have d: "\<not> visible s' ''D''" unfolding v by code_simp
  show ?thesis using demo_uniqueIds demo_startEventsHaveParent r a l b f d by blast
qed

text \<open>
  C2, as stated. The claim fails for a collection that holds the id of the connection
  itself: \<open>showElements\<close> calls \<open>show\<close> on every id it is given, and connections are
  registered like shapes. On the example in the reset state, \<open>showElements(['Flow_AB'])\<close>
  makes \<open>Flow_AB\<close> visible although neither its source \<open>A\<close> nor its target \<open>B\<close> is in
  the collection, and both stay hidden.
\<close>

theorem showElements_connection_counterexample:
  "elementB \<in> set (registryElements demoHidden) \<and> flowAB \<in> set (incomingOf elementB) \<and>
   \<not> visible demoHidden (conn_id flowAB) \<and>
   visible (showElements [''Flow_AB''] demoHidden) (conn_id flowAB) \<and>
   ref_id (source flowAB) \<notin> set [''Flow_AB''] \<and>
   ref_id (target flowAB) \<notin> set [''Flow_AB''] \<and>
   \<not> visible (showElements [''Flow_AB''] demoHidden) (ref_id (source flowAB)) \<and>
   \<not> visible (showElements [''Flow_AB''] demoHidden) (ref_id (target flowAB))"
  by code_simp

text \<open>
  C2, amended. On a consistent diagram, for a collection \<open>ks\<close> of ids that does not hold
  the id of the connection itself, an incoming connection \<open>c\<close> of a registered element is
  visible after \<open>showElements(ks)\<close> exactly when it was visible before or both the id of
  its source and the id of its target are in \<open>ks\<close>. So a hidden connection becomes
  visible if and only if both ends are in the collection, and stays hidden when an end
  is not.
\<close>

theorem showElements_connection:
  assumes "consistent s" and "e \<in> set (registryElements s)" and "c \<in> set (incomingOf e)"
    and "conn_id c \<notin> set ks"
  shows "visible (showElements ks s) (conn_id c) \<longleftrightarrow>
     visible s (conn_id c) \<or> (ref_id (source c) \<in> set ks \<and> ref_id (target c) \<in> set ks)"
proof -
  have u: "uniqueIds s" using assms(1) by (simp add: consistent_def)
  have cc: "c \<in> set (connections s)" using assms(2,3) by (rule incoming_in_connections)
  have reg: "registered s (conn_id c)" using assms(1) cc by (simp add: consistent_def)
  have tgt: "ref_id (target c) = el_id e" using assms(1,2,3) by (simp add: consistent_def)
  have ge: "get s (el_id e) = Some e" using get_Some_iff [OF u] assms(2) by simp
  have same: "\<And>c'. c' \<in> set (connections s) \<Longrightarrow> conn_id c' = conn_id c \<Longrightarrow> c' = c"
    using assms(1) cc unfolding consistent_def by blast
  have "(\<exists>i \<in> set ks. conn_id c \<in> set (revealedBy ks s i)) \<longleftrightarrow>
        ref_id (source c) \<in> set ks \<and> ref_id (target c) \<in> set ks"
  proof
    assume "\<exists>i \<in> set ks. conn_id c \<in> set (revealedBy ks s i)"
    then obtain i where i: "i \<in> set ks" "conn_id c \<in> set (revealedBy ks s i)" by blast
    have "conn_id c \<noteq> i" using i(1) assms(4) by auto
    then obtain c' where c': "c' \<in> set (incomingAt s i)" "conn_id c' = conn_id c"
      "ref_id (source c') \<in> set ks"
      using i(2) by (auto simp: revealedBy_def)
    then obtain e' where e': "get s i = Some e'" "c' \<in> set (incomingOf e')"
      by (cases "get s i") (auto simp: incomingAt_def)
    then have m: "e' \<in> set (registryElements s)" "el_id e' = i"
      using get_Some_iff [OF u] by auto
    then have "c' \<in> set (connections s)" using e'(2) incoming_in_connections by blast
    then have "c' = c" using same c'(2) by blast
    moreover have "ref_id (target c') = el_id e'"
      using assms(1) m(1) e'(2) by (simp add: consistent_def)
    ultimately show "ref_id (source c) \<in> set ks \<and> ref_id (target c) \<in> set ks"
      using c'(3) m(2) i(1) by simp
  next
    assume a: "ref_id (source c) \<in> set ks \<and> ref_id (target c) \<in> set ks"
    then have "el_id e \<in> set ks" using tgt by simp
    moreover have "conn_id c \<in> set (revealedBy ks s (el_id e))"
      using a assms(3) by (simp add: revealedBy_def incomingAt_def ge)
    ultimately show "\<exists>i \<in> set ks. conn_id c \<in> set (revealedBy ks s i)" by blast
  qed
  then show ?thesis using reg by (simp add: visible_showElements)
qed

theorem showElements_connection_witness:
  "consistent demoHidden \<and> elementB \<in> set (registryElements demoHidden) \<and>
   flowAB \<in> set (incomingOf elementB) \<and> conn_id flowAB \<notin> set [''A'', ''B''] \<and>
   \<not> visible demoHidden (conn_id flowAB) \<and>
   visible (showElements [''A'', ''B''] demoHidden) (conn_id flowAB) \<and>
   \<not> visible (showElements [''B''] demoHidden) (conn_id flowAB)"
proof -
  have e: "elementB \<in> set (registryElements demoHidden)" by code_simp
  have c: "flowAB \<in> set (incomingOf elementB)" by code_simp
  have n2: "conn_id flowAB \<notin> set [''A'', ''B'']" by code_simp
  have n1: "conn_id flowAB \<notin> set [''B'']" by code_simp
  have h: "\<not> visible demoHidden (conn_id flowAB)" by code_simp
  have st: "ref_id (source flowAB) = ''A''" "ref_id (target flowAB) = ''B''"
    by (simp_all add: flowAB_def)
  have a: "visible (showElements [''A'', ''B''] demoHidden) (conn_id flowAB)"
    using showElements_connection [OF demoHidden_consistent e c n2] st by simp
  have b: "\<not> visible (showElements [''B''] demoHidden) (conn_id flowAB)"
    using showElements_connection [OF demoHidden_consistent e c n1] st h by simp
  show ?thesis using demoHidden_consistent e c n2 h a b by blast
qed

text \<open>
  C3. On a consistent diagram, for an id \<open>t\<close> that is visible already, \<open>showNext(t)\<close>
  returns normally; a connection \<open>c\<close> of the diagram is visible afterwards exactly when
  it was visible before or it is an outgoing connection of \<open>t\<close> whose target is a
  \<open>bpmn:Gateway\<close> or a \<open>bpmn:EndEvent\<close>; and the target of an outgoing connection of
  \<open>t\<close> is visible afterwards exactly when it was visible before or it is a gateway or an
  end event. So an outgoing connection to a plain task, and that task, stay hidden.
\<close>

theorem showNext_reveals:
  assumes "consistent s" and "visible s t" and "c \<in> set (connections s)"
  shows "\<exists>s' e. showNext t s = Inr s' \<and> get s t = Some e \<and>
     (visible s' (conn_id c) \<longleftrightarrow>
        visible s (conn_id c) \<or> (c \<in> set (outgoingOf e) \<and> gatewayOrEnd c)) \<and>
     (c \<in> set (outgoingOf e) \<longrightarrow>
        (visible s' (ref_id (target c)) \<longleftrightarrow>
           visible s (ref_id (target c)) \<or> gatewayOrEnd c))"
proof -
  obtain e where ge: "get s t = Some e" using visible_get [OF assms(2)] by blast
  have u: "uniqueIds s" using assms(1) by (simp add: consistent_def)
  have em: "e \<in> set (registryElements s)" using get_Some_iff [OF u] ge by simp
  let ?s' = "fold showOutgoing (outgoingOf e) s"
  have sn: "showNext t s = Inr ?s'" using ge by (rule showNext_registered)
  have out: "\<And>c2. c2 \<in> set (outgoingOf e) \<Longrightarrow> c2 \<in> set (connections s)"
    using em outgoing_in_connections by blast
  have regc: "registered s (conn_id c)" "registered s (ref_id (target c))"
    using assms(1,3) by (simp_all add: consistent_def)
  have same: "\<And>c2. c2 \<in> set (connections s) \<Longrightarrow> conn_id c2 = conn_id c \<Longrightarrow> c2 = c"
    using assms(1,3) unfolding consistent_def by blast
  have noend: "\<And>c1 c2. c1 \<in> set (connections s) \<Longrightarrow> c2 \<in> set (connections s) \<Longrightarrow>
      conn_id c1 \<noteq> ref_id (target c2)"
    using assms(1) unfolding consistent_def by blast
  have bo: "\<And>c2. c2 \<in> set (connections s) \<Longrightarrow> ref_id (target c2) = ref_id (target c) \<Longrightarrow>
      ref_bo (target c2) = ref_bo (target c)"
  proof -
    fix c2 assume c2: "c2 \<in> set (connections s)" "ref_id (target c2) = ref_id (target c)"
    obtain x where x: "x \<in> set (registryElements s)" "el_id x = ref_id (target c)"
      using registered_element [OF regc(2)] by blast
    have k: "\<And>c' y. c' \<in> set (connections s) \<Longrightarrow> y \<in> set (registryElements s) \<Longrightarrow>
        el_id y = ref_id (target c') \<Longrightarrow> businessObject y = ref_bo (target c')"
      using assms(1) unfolding consistent_def by blast
    have "businessObject x = ref_bo (target c)" using k [OF assms(3) x(1)] x(2) by blast
    moreover have "businessObject x = ref_bo (target c2)"
      using k [OF c2(1) x(1)] x(2) c2(2) by metis
    ultimately show "ref_bo (target c2) = ref_bo (target c)" by metis
  qed
  have a: "(\<exists>c2 \<in> set (outgoingOf e).
              gatewayOrEnd c2 \<and> (conn_id c = conn_id c2 \<or> conn_id c = ref_id (target c2)))
           \<longleftrightarrow> c \<in> set (outgoingOf e) \<and> gatewayOrEnd c"
  proof
    assume "\<exists>c2 \<in> set (outgoingOf e).
              gatewayOrEnd c2 \<and> (conn_id c = conn_id c2 \<or> conn_id c = ref_id (target c2))"
    then obtain c2 where c2: "c2 \<in> set (outgoingOf e)" "gatewayOrEnd c2"
      "conn_id c = conn_id c2 \<or> conn_id c = ref_id (target c2)" by blast
    have "conn_id c \<noteq> ref_id (target c2)" using noend [OF assms(3) out [OF c2(1)]] .
    then have "conn_id c2 = conn_id c" using c2(3) by metis
    then have "c2 = c" by (rule same [OF out [OF c2(1)]])
    then show "c \<in> set (outgoingOf e) \<and> gatewayOrEnd c" using c2(1,2) by blast
  next
    assume "c \<in> set (outgoingOf e) \<and> gatewayOrEnd c"
    then show "\<exists>c2 \<in> set (outgoingOf e).
              gatewayOrEnd c2 \<and> (conn_id c = conn_id c2 \<or> conn_id c = ref_id (target c2))"
      by blast
  qed
  have b: "(\<exists>c2 \<in> set (outgoingOf e).
              gatewayOrEnd c2 \<and>
              (ref_id (target c) = conn_id c2 \<or> ref_id (target c) = ref_id (target c2)))
           \<longleftrightarrow> gatewayOrEnd c" if co: "c \<in> set (outgoingOf e)"
  proof
    assume "\<exists>c2 \<in> set (outgoingOf e).
              gatewayOrEnd c2 \<and>
              (ref_id (target c) = conn_id c2 \<or> ref_id (target c) = ref_id (target c2))"
    then obtain c2 where c2: "c2 \<in> set (outgoingOf e)" "gatewayOrEnd c2"
      "ref_id (target c) = conn_id c2 \<or> ref_id (target c) = ref_id (target c2)" by blast
    have "conn_id c2 \<noteq> ref_id (target c)" using noend [OF out [OF c2(1)] assms(3)] .
    then have "ref_id (target c2) = ref_id (target c)" using c2(3) by metis
    then have "ref_bo (target c2) = ref_bo (target c)" by (rule bo [OF out [OF c2(1)]])
    then show "gatewayOrEnd c" using c2(2) unfolding gatewayOrEnd_def by metis
  next
    assume "gatewayOrEnd c"
    then show "\<exists>c2 \<in> set (outgoingOf e).
              gatewayOrEnd c2 \<and>
              (ref_id (target c) = conn_id c2 \<or> ref_id (target c) = ref_id (target c2))"
      using co by blast
  qed
  have v1: "visible ?s' (conn_id c) \<longleftrightarrow>
        visible s (conn_id c) \<or> (c \<in> set (outgoingOf e) \<and> gatewayOrEnd c)"
    unfolding visible_fold_showOutgoing a using regc(1) by simp
  have v2: "c \<in> set (outgoingOf e) \<longrightarrow>
        (visible ?s' (ref_id (target c)) \<longleftrightarrow> visible s (ref_id (target c)) \<or> gatewayOrEnd c)"
    unfolding visible_fold_showOutgoing using b regc(2) by simp
  show ?thesis using sn ge v1 v2 by blast
qed

theorem showNext_reveals_witness:
  "consistent demoStarted \<and> visible demoStarted ''A'' \<and>
   flowAB \<in> set (connections demoStarted) \<and>
   (\<exists>s'. showNext ''A'' demoStarted = Inr s' \<and> \<not> visible s' ''Flow_AB'' \<and> \<not> visible s' ''B'') \<and>
   consistent demoEntered \<and> visible demoEntered ''B'' \<and>
   flowBC \<in> set (connections demoEntered) \<and>
   (\<exists>s'. showNext ''B'' demoEntered = Inr s' \<and> visible s' ''Flow_BC'' \<and> visible s' ''C'')"
proof -
  have va: "visible demoStarted ''A''" by code_simp
  have ca: "flowAB \<in> set (connections demoStarted)" by code_simp
  have ga: "get demoStarted ''A'' = Some elementA" by code_simp
  have fa: "flowAB \<in> set (outgoingOf elementA)" "\<not> gatewayOrEnd flowAB"
    "\<not> visible demoStarted ''Flow_AB''" "\<not> visible demoStarted ''B''"
    "conn_id flowAB = ''Flow_AB''" "ref_id (target flowAB) = ''B''"
    by code_simp+
  have a: "\<exists>s'. showNext ''A'' demoStarted = Inr s' \<and> \<not> visible s' ''Flow_AB'' \<and> \<not> visible s' ''B''"
    using showNext_reveals [OF demoStarted_consistent va ca] ga fa by auto
  have vb: "visible demoEntered ''B''" by code_simp
  have cb: "flowBC \<in> set (connections demoEntered)" by code_simp
  have gb: "get demoEntered ''B'' = Some elementB" by code_simp
  have fb: "flowBC \<in> set (outgoingOf elementB)" "gatewayOrEnd flowBC"
    "conn_id flowBC = ''Flow_BC''" "ref_id (target flowBC) = ''C''"
    by code_simp+
  have b: "\<exists>s'. showNext ''B'' demoEntered = Inr s' \<and> visible s' ''Flow_BC'' \<and> visible s' ''C''"
    using showNext_reveals [OF demoEntered_consistent vb cb] gb fb by auto
  show ?thesis using demoStarted_consistent va ca a demoEntered_consistent vb cb b by blast
qed




text \<open>
  C5. The claim: an id that is not registered is logged and skipped by the
  navigation functions, and no exception reaches the caller. \<open>showElements\<close> does so;
  \<open>showNext\<close> reads \<open>element.outgoing\<close> of the missing element and raises a TypeError.
  Evaluated on the example diagram with the id \<open>ghost\<close>.
\<close>

theorem showNext_unknown_id_raises:
  "get demo ''ghost'' = None \<and> showNext ''ghost'' demo = Inl TypeError \<and>
   console (showElements [''ghost'', ''A''] demo) = [NotFound ''ghost''] \<and>
   visible (showElements [''ghost'', ''A''] demo) ''A''"
  by code_simp

text \<open>
  C6. When the registry has the element, \<open>scrollTo\<close> resets the zoom and then scrolls by
  \<open>dx = -x + 75\<close>, \<open>dy = -y + 75\<close>, and leaves the registry alone; when it has not,
  \<open>scrollTo\<close> changes nothing at all. The function has no statement that can raise.
\<close>

theorem scrollTo_camera:
  "(get s k = Some el \<longrightarrow>
      zoomScroll (scrollTo k s) = zoomScroll s @ [Reset, Scroll (- el_x el + 75) (- el_y el + 75)] \<and>
      elements (scrollTo k s) = elements s) \<and>
   (get s k = None \<longrightarrow> scrollTo k s = s)"
  by (simp add: scrollTo_def PADDING_def Let_def)

theorem scrollTo_camera_witness:
  "get demo ''A'' = Some elementA \<and>
   zoomScroll (scrollTo ''A'' demo) = [Reset, Scroll (- 25) (- 125)] \<and>
   get demo ''ghost'' = None \<and>
   scrollTo ''ghost'' demo = demo"
proof -
  have a: "get demo ''A'' = Some elementA" by code_simp
  have x: "el_x elementA = 100" "el_y elementA = 200" by code_simp+
  have z: "zoomScroll demo = []" by (simp add: demo_def)
  have g: "get demo ''ghost'' = None" by code_simp
  show ?thesis
    using scrollTo_camera [of demo "''A''" elementA] scrollTo_camera [of demo "''ghost''" elementA] a x z g
    by simp
qed

text \<open>
  C7. For a permutation \<open>ks'\<close> of \<open>ks\<close>, \<open>showElements(ks')\<close> and \<open>showElements(ks)\<close>
  leave the same ids visible, from every state.
\<close>

theorem showElements_order_independent:
  assumes "mset ks' = mset ks"
  shows "\<forall>k. visible (showElements ks' s) k \<longleftrightarrow> visible (showElements ks s) k"
proof -
  have e: "set ks' = set ks" using assms by (metis set_mset_mset)
  then have "\<And>i. revealedBy ks' s i = revealedBy ks s i" by (simp add: revealedBy_def)
  then show ?thesis using e by (simp add: visible_showElements)
qed

theorem showElements_order_independent_witness:
  "mset [''B'', ''A''] = mset [''A'', ''B''] \<and>
   (\<forall>k. visible (showElements [''B'', ''A''] demoHidden) k \<longleftrightarrow>
        visible (showElements [''A'', ''B''] demoHidden) k) \<and>
   visible (showElements [''B'', ''A''] demoHidden) ''Flow_AB'' \<and>
   \<not> visible demoHidden ''Flow_AB''"
proof -
  have m: "mset [''B'', ''A''] = mset [''A'', ''B'']" by simp
  have v: "visible (showElements [''B'', ''A''] demoHidden) ''Flow_AB''" by code_simp
  have h: "\<not> visible demoHidden ''Flow_AB''" by code_simp
  show ?thesis using showElements_order_independent [OF m, of demoHidden] m v h by blast
qed

text \<open>
  C8. \<open>show(id)\<close> twice is \<open>show(id)\<close> once (the states are equal, so the visible sets
  are), and \<open>show\<close> of an id that is visible already changes the visibility of no id.
\<close>

theorem show_idempotent:
  "showElement k (showElement k s) = showElement k s \<and>
   (visible s k \<longrightarrow> (\<forall>k'. visible (showElement k s) k' = visible s k'))"
proof (cases "registered s k")
  case True
  then have "registered (showElement k s) k"
    using registered_cong [of "showElement k s" s k] by simp
  then have "showElement k (showElement k s) = showElement k s"
    using True by (simp add: showElement_registered attr_display_twice)
  then show ?thesis by (auto simp: visible_showElement)
next
  case False
  then show ?thesis by (simp add: showElement_unregistered)
qed

theorem show_idempotent_witness:
  "showElement ''A'' (showElement ''A'' demo) = showElement ''A'' demo \<and>
   visible demo ''A'' \<and>
   (\<forall>k'. visible (showElement ''A'' demo) k' = visible demo k')"
proof -
  have v: "visible demo ''A''" by code_simp
  show ?thesis using show_idempotent [of "''A''" demo] v by simp
qed

text \<open>
  C9, as stated. The claim fails: \<open>showNext\<close> does not check that its
  argument is visible. On the example, after \<open>start(); showNext('B')\<close> from the reset
  state, the connection \<open>Flow_BC\<close> is visible and its source \<open>B\<close> is hidden.
\<close>

theorem walk_keeps_edges_anchored_counterexample:
  "returns (run [Start, ShowNext ''B''] demoHidden) \<and>
   flowBC \<in> set (connections (projr (run [Start, ShowNext ''B''] demoHidden))) \<and>
   visibleIn (run [Start, ShowNext ''B''] demoHidden) (conn_id flowBC) \<and>
   \<not> visibleIn (run [Start, ShowNext ''B''] demoHidden) (ref_id (source flowBC)) \<and>
   \<not> noDanglingEdge (projr (run [Start, ShowNext ''B''] demoHidden))"
  by code_simp

text \<open>
  C9, amended. On a consistent diagram in which every start event has a parent, every
  walk from the reset state that gives \<open>showElements\<close> only ids of shapes (no id of a
  connection) and calls \<open>showNext\<close> only with an id that is visible at that moment
  returns normally, and afterwards every visible connection has a visible source.
\<close>

theorem walk_keeps_edges_anchored:
  assumes "consistent s0" and "startEventsHaveParent s0" and "hideAll s0 = Inr s"
    and "admissible xs s"
  shows "\<exists>s'. run xs s = Inr s' \<and> noDanglingEdge s'"
proof -
  have r: "registryElements s = registryElements s0"
    using hideAll_effect [of s0] assms(3) by auto
  have c: "consistent s" using assms(1) consistent_cong [OF r] by simp
  have h: "startEventsHaveParent s" using assms(2) startEventsHaveParent_cong [OF r] by simp
  have n: "noDanglingEdge s" using hideAll_noDanglingEdge [OF assms(1,3)] .
  show ?thesis using run_noDanglingEdge [OF c h n assms(4)] .
qed

theorem walk_keeps_edges_anchored_witness:
  "consistent demo \<and> startEventsHaveParent demo \<and> hideAll demo = Inr demoHidden \<and>
   admissible [Start, ShowElements [''A'', ''B''], ShowNext ''B''] demoHidden \<and>
   (\<exists>s'. run [Start, ShowElements [''A'', ''B''], ShowNext ''B''] demoHidden = Inr s' \<and>
      noDanglingEdge s') \<and>
   visibleIn (run [Start, ShowElements [''A'', ''B''], ShowNext ''B''] demoHidden) ''Flow_BC''"
proof -
  have a: "admissible [Start, ShowElements [''A'', ''B''], ShowNext ''B''] demoHidden"
    by code_simp
  have v: "visibleIn (run [Start, ShowElements [''A'', ''B''], ShowNext ''B''] demoHidden) ''Flow_BC''"
    by code_simp
  show ?thesis
    using walk_keeps_edges_anchored [OF demo_consistent demo_startEventsHaveParent hideAll_demo a]
      demo_consistent demo_startEventsHaveParent hideAll_demo a v
    by blast
qed

text \<open>
  C10. For a shape whose type tag is \<open>label\<close> the \<open>shape.added\<close> handler returns at once:
  the graphical node is unchanged, whatever the business object of the label is.
\<close>

theorem label_gets_no_icon: "el_type e = ''label'' \<Longrightarrow> shapeAdded e g = g"
  by (simp add: shapeAdded_def)

theorem label_gets_no_icon_witness:
  "el_type labelA = ''label'' \<and> isType (businessObject labelA) ''bpmn:StartEvent'' \<and>
   shapeAdded labelA freshGfx = freshGfx"
proof -
  have t: "el_type labelA = ''label''" by (simp add: labelA_def mkElement_def)
  have b: "isType (businessObject labelA) ''bpmn:StartEvent''"
    by (simp add: labelA_def mkElement_def isType_def)
  show ?thesis using label_gets_no_icon [OF t, of freshGfx] t b by simp
qed

end
